theory Spec2Isabelle
  imports Complex_Main "HOL-Library.Signed_Division" "HOL-Library.Monad_Syntax"
    "HOL-Library.Multiset" "HOL-Library.Word"
begin

section \<open>The time-bucketed window (time.go, and the earlier window.go in src/unnamed/part_004)\<close>

text \<open>
  Go's \<open>int\<close>, \<open>int64\<close> and \<open>time.Duration\<close> are modelled as \<open>int\<close>: every value
  below is a bucket count, a ring offset or a quotient of a Unix timestamp; the sums
  are of two offsets or of a count and one, and the differences are of two
  timestamps or two offsets, so that with a number of buckets that can be allocated
  no operation leaves the 64-bit range. Go's \<open>/\<close> and \<open>%\<close> truncate towards zero:
  they are \<open>sdiv\<close> and \<open>smod\<close>.
  A \<open>float64\<close> sample is a \<open>real\<close> (a finite value; rounding is not modelled).
  A panic (index out of range, integer division by zero, negative \<open>make\<close> length)
  is the value \<open>None\<close>. The mutex is not modelled: each operation is one atomic step.
  The clock read by \<open>time.Now()\<close> is the argument \<open>now\<close>, in Unix nanoseconds.
\<close>

record TimeWindow =
  largestAlloc :: int
  bucketSize :: int
  bucketSizeNano :: int
  numberOfBuckets :: int
  numberOfBuckets64 :: int
  window :: "real list list"
  lastWindowOffset :: int
  lastWindowTime :: int

text \<open>\<open>NewTimeWindow\<close> of time.go: the ring has one slot more than the caller asks for.\<close>

definition NewTimeWindow :: "int \<Rightarrow> int \<Rightarrow> TimeWindow option" where
  "NewTimeWindow bucketSize' numberOfBuckets' =
     (if numberOfBuckets' + 1 < 0 then None
      else Some \<lparr> largestAlloc = 0,
                  bucketSize = bucketSize',
                  bucketSizeNano = bucketSize',
                  numberOfBuckets = numberOfBuckets' + 1,
                  numberOfBuckets64 = numberOfBuckets' + 1,
                  window = replicate (nat (numberOfBuckets' + 1)) [],
                  lastWindowOffset = 0,
                  lastWindowTime = 0 \<rparr>)"

text \<open>
  \<open>NewTimeWindow\<close> of the earlier window.go (the \<open>Feed\<close> API): the ring has exactly
  the number of slots asked for, each with capacity \<open>preallocHint\<close>; the field
  \<open>prealloc\<close> is the record's \<open>largestAlloc\<close>. The methods of the two files are the same.
\<close>

definition NewTimeWindow_prealloc :: "int \<Rightarrow> int \<Rightarrow> int \<Rightarrow> TimeWindow option" where
  "NewTimeWindow_prealloc bucketSize' numberOfBuckets' preallocHint =
     (if numberOfBuckets' < 0 \<or> (0 < numberOfBuckets' \<and> preallocHint < 0) then None
      else Some \<lparr> largestAlloc = preallocHint,
                  bucketSize = bucketSize',
                  bucketSizeNano = bucketSize',
                  numberOfBuckets = numberOfBuckets',
                  numberOfBuckets64 = numberOfBuckets',
                  window = replicate (nat numberOfBuckets') [],
                  lastWindowOffset = 0,
                  lastWindowTime = 0 \<rparr>)"

definition resetWindow :: "TimeWindow \<Rightarrow> TimeWindow" where
  "resetWindow w = w\<lparr> window := map (\<lambda>bucket. []) (window w) \<rparr>"

text \<open>\<open>w.window[offset] = w.window[offset][:0]\<close>, which panics when the offset is out of range.\<close>

definition clearBucket :: "TimeWindow \<Rightarrow> int \<Rightarrow> TimeWindow option" where
  "clearBucket w offset =
     (if 0 \<le> offset \<and> offset < int (length (window w))
      then Some (w\<lparr> window := (window w)[nat offset := []] \<rparr>)
      else None)"

text \<open>The loop of \<open>resetBuckets\<close>, from \<open>counter\<close> up to \<open>distance - 1\<close>.\<close>

function resetLoop :: "int \<Rightarrow> int \<Rightarrow> TimeWindow \<Rightarrow> TimeWindow option" where
  "resetLoop counter distance w =
     (if counter < distance then
        (if numberOfBuckets w = 0 then None
         else case clearBucket w ((counter + lastWindowOffset w) smod numberOfBuckets w) of
                None \<Rightarrow> None
              | Some w' \<Rightarrow> resetLoop (counter + 1) distance w')
      else Some w)"
  by pat_completeness auto
termination
  by (relation "measure (\<lambda>(counter, distance, w). nat (distance - counter))") auto

declare resetLoop.simps [simp del]

definition resetBuckets :: "TimeWindow \<Rightarrow> int \<Rightarrow> TimeWindow option" where
  "resetBuckets w windowOffset =
     (let distance = windowOffset - lastWindowOffset w;
          distance = (if distance < 0
                      then (numberOfBuckets w - lastWindowOffset w) + windowOffset
                      else distance)
      in resetLoop 1 distance w)"

definition keepConsistent :: "TimeWindow \<Rightarrow> int \<Rightarrow> int \<Rightarrow> TimeWindow option" where
  "keepConsistent w adjustedTime windowOffset =
     (let w1 = (if adjustedTime - lastWindowTime w > numberOfBuckets64 w
                then resetWindow w else w)
      in if adjustedTime \<noteq> lastWindowTime w1
            \<and> adjustedTime - lastWindowTime w1 < numberOfBuckets64 w1
         then resetBuckets w1 windowOffset
         else Some w1)"

definition selectBucket :: "TimeWindow \<Rightarrow> int \<Rightarrow> (int \<times> int) option" where
  "selectBucket w currentTime =
     (if bucketSizeNano w = 0 \<or> numberOfBuckets64 w = 0 then None
      else let adjustedTime = currentTime sdiv bucketSizeNano w;
               windowOffset = adjustedTime smod numberOfBuckets64 w
           in Some (adjustedTime, windowOffset))"

text \<open>\<open>Append\<close> (time.go), which is \<open>Feed\<close> in window.go.\<close>

definition Append :: "TimeWindow \<Rightarrow> int \<Rightarrow> real \<Rightarrow> TimeWindow option" where
  "Append w now val =
     do {
       (adjustedTime, windowOffset) \<leftarrow> selectBucket w now;
       w1 \<leftarrow> keepConsistent w adjustedTime windowOffset;
       if 0 \<le> windowOffset \<and> windowOffset < int (length (window w1))
       then Some (w1\<lparr> window := (window w1)[nat windowOffset :=
                                    window w1 ! nat windowOffset @ [val]],
                      lastWindowTime := adjustedTime,
                      lastWindowOffset := windowOffset \<rparr>)
       else None
     }"

text \<open>
  \<open>Iterate\<close> returns the window it leaves behind and the samples it passes to the
  callback, in the order of the calls.
\<close>

definition Iterate :: "TimeWindow \<Rightarrow> int \<Rightarrow> (TimeWindow \<times> real list) option" where
  "Iterate w now =
     do {
       (adjustedTime, windowOffset) \<leftarrow> selectBucket w now;
       w1 \<leftarrow> keepConsistent w adjustedTime windowOffset;
       Some (w1, concat (window w1))
     }"

text \<open>
  A window of two buckets of 50 ns (a ring of three slots) that received the samples
  1, 2 and 3 in the consecutive buckets 18, 19 and 20.
\<close>

definition filled_ring :: TimeWindow where
  "filled_ring = \<lparr> largestAlloc = 0, bucketSize = 50, bucketSizeNano = 50,
                   numberOfBuckets = 3, numberOfBuckets64 = 3,
                   window = [[1], [2], [3]],
                   lastWindowOffset = 2, lastWindowTime = 20 \<rparr>"

section \<open>Reducers over an iterator (reduce.go, aggregate.go)\<close>

text \<open>
  An iterator (\<open>iteratable\<close>, \<open>Iterator\<close>) is modelled by the list of samples that its
  \<open>Iterate\<close> passes to the callback, in the order of the calls: for a time window this
  is the second component of \<open>Iterate\<close> above. A reducer is a function of that list.

  Arithmetic on finite \<open>float64\<close> values is arithmetic on \<open>real\<close>, without rounding.
  HOL's \<open>x / 0\<close> is \<open>0\<close>, Go's is not: a quotient whose divisor may be zero is written
  with \<open>float_div\<close>, which has the IEEE results of a division by (positive) zero.
\<close>

datatype float64 = Finite real | PosInf | NegInf | NaN

definition float_div :: "real \<Rightarrow> real \<Rightarrow> float64" where
  "float_div x y =
     (if y \<noteq> 0 then Finite (x / y)
      else if x = 0 then NaN
      else if 0 < x then PosInf
      else NegInf)"

text \<open>\<open>Avg\<close> of reduce.go.\<close>

definition Avg :: "real list \<Rightarrow> float64" where
  "Avg it =
     (let (result, count) = fold (\<lambda>v (result, count). (result + v, count + 1)) it (0, 0)
      in float_div result count)"

text \<open>\<open>avg\<close> of aggregate.go, the function behind \<open>NewAverageAggregator\<close>.\<close>

definition avg :: "real list \<Rightarrow> float64" where
  "avg it =
     (let (result, numberOfPoints) =
            fold (\<lambda>p (result, numberOfPoints). (result + p, numberOfPoints + 1)) it (0, 0)
      in float_div result numberOfPoints)"

text \<open>Reading a slice at an \<open>int\<close> index: out of range is a panic.\<close>

definition index :: "'a list \<Rightarrow> int \<Rightarrow> 'a option" where
  "index s i = (if 0 \<le> i \<and> i < int (length s) then Some (s ! nat i) else None)"

text \<open>The conversion \<open>int(x)\<close> of a \<open>float64\<close> truncates towards zero.\<close>

definition int_of_float64 :: "real \<Rightarrow> int" where
  "int_of_float64 x = (if 0 \<le> x then \<lfloor>x\<rfloor> else \<lceil>x\<rceil>)"

text \<open>
  \<open>math.Mod(x, 1)\<close>: the remainder has the sign of \<open>x\<close>, so it is what the truncation
  of \<open>x\<close> leaves.
\<close>

definition Mod1 :: "real \<Rightarrow> real" where
  "Mod1 x = x - of_int (int_of_float64 x)"

text \<open>
  \<open>percentileAggregator.Aggregate\<close> of aggregate.go (and, with the result wrapped,
  \<open>percentileRollup.Aggregate\<close>). The scratch slice \<open>a.values\<close> is emptied before the
  samples are collected, so the result depends on the samples only. \<open>sort.Float64s\<close>
  is \<open>sort\<close>; \<open>int(math.Floor(n))\<close> is \<open>\<lfloor>n\<rfloor>\<close>, the floor being an integer already.
\<close>

definition Aggregate :: "real \<Rightarrow> real list \<Rightarrow> real option" where
  "Aggregate percentile it =
     (let values = it in
      if length values < 1 then Some 0.0
      else if length values < 2 then index values 0
      else
        let values = sort values;
            n = (percentile / 100) * real (length values) - 1;
            k = \<lfloor>n\<rfloor>;
            plusOne = k + 1;
            plusOne = (if plusOne > int (length values) - 1 then k else plusOne);
            f = Mod1 n
        in do {
             vk \<leftarrow> index values k;
             vPlusOne \<leftarrow> index values plusOne;
             Some (((1 - f) * vk) + (f * vPlusOne))
           })"

text \<open>\<open>Percentile\<close> of reduce.go: another rank formula, and no guard for few samples.\<close>

definition Percentile :: "real \<Rightarrow> real list \<Rightarrow> real option" where
  "Percentile p it =
     (let values = sort it;
          position = (real (length values) * (p / 100) + 0.5) - 1;
          k = \<lfloor>position\<rfloor>;
          f = Mod1 position
      in if f = 0.0 then index values k
         else
           let plusOne = k + 1;
               plusOne = (if plusOne > int (length values) - 1 then k else plusOne)
           in do {
                vk \<leftarrow> index values k;
                vPlusOne \<leftarrow> index values plusOne;
                Some (((1 - f) * vk) + (f * vPlusOne))
              })"

section \<open>The streaming estimator \<open>FastPercentile\<close> (the later reduce.go, kept in src/point_test.go)\<close>

text \<open>One pass of the inner loop of \<open>bubbleSort\<close>, and the sort: as many passes as elements.\<close>

fun bubblePass :: "real list \<Rightarrow> real list" where
  "bubblePass (a # b # s) =
     (if a > b then b # bubblePass (a # s) else a # bubblePass (b # s))"
| "bubblePass s = s"

definition bubbleSort :: "real list \<Rightarrow> real list" where
  "bubbleSort s = (bubblePass ^^ length s) s"

text \<open>
  The variables that the callback of \<open>FastPercentile\<close> captures. The arrays of five
  are lists of length five; \<open>observations\<close> is a \<open>uint64\<close>.
\<close>

record psquare =
  initalObservations :: "real list"
  q :: "real list"
  n :: "int list"
  nPrime :: "real list"
  dnPrime :: "real list"
  observations :: "64 word"

definition psquare_init :: psquare where
  "psquare_init = \<lparr> initalObservations = [], q = replicate 5 0, n = replicate 5 0,
                    nPrime = replicate 5 0, dnPrime = replicate 5 0, observations = 0 \<rparr>"

text \<open>
  The block run at the sixth observation. Reading \<open>initalObservations[offset]\<close> for the
  five offsets panics when fewer than five values were recorded.
\<close>

definition initMarkers :: "real \<Rightarrow> psquare \<Rightarrow> psquare option" where
  "initMarkers p st =
     (let s = bubbleSort (initalObservations st) in
      if length s < 5 then None
      else Some (st\<lparr> initalObservations := s,
                     q := [s ! 0, s ! 1, s ! 2, s ! 3, s ! 4],
                     n := [0, 1, 2, 3, 4],
                     nPrime := [0, 2 * p, 4 * p, 2 + 2 * p, 4],
                     dnPrime := [0, p / 2, p, (1 + p) / 2, 1] \<rparr>))"

text \<open>The \<open>switch\<close>: the cell \<open>k\<close> of the new value, widening the extreme markers.\<close>

definition selectCell :: "psquare \<Rightarrow> real \<Rightarrow> psquare \<times> int" where
  "selectCell st v =
     (if v < q st ! 0 then (st\<lparr> q := (q st)[0 := v] \<rparr>, 0)
      else if q st ! 0 \<le> v \<and> v < q st ! 1 then (st, 0)
      else if q st ! 1 \<le> v \<and> v < q st ! 2 then (st, 1)
      else if q st ! 2 \<le> v \<and> v < q st ! 3 then (st, 2)
      else if q st ! 3 \<le> v \<and> v \<le> q st ! 4 then (st, 3)
      else if v > q st ! 4 then (st\<lparr> q := (q st)[4 := v] \<rparr>, 3)
      else (st, 0))"

text \<open>\<open>for x := k + 1; x < 5; x = x + 1 { n[x] = n[x] + 1 }\<close>\<close>

definition bumpRanks :: "psquare \<Rightarrow> int \<Rightarrow> psquare" where
  "bumpRanks st k =
     st\<lparr> n := fold (\<lambda>x ns. ns[x := ns ! x + 1]) [nat (k + 1)..<5] (n st) \<rparr>"

definition advanceDesired :: "psquare \<Rightarrow> psquare" where
  "advanceDesired st =
     st\<lparr> nPrime := [nPrime st ! 0 + dnPrime st ! 0,
                     nPrime st ! 1 + dnPrime st ! 1,
                     nPrime st ! 2 + dnPrime st ! 2,
                     nPrime st ! 3 + dnPrime st ! 3,
                     nPrime st ! 4 + dnPrime st ! 4] \<rparr>"

definition sign :: "real \<Rightarrow> real" where
  "sign v = (if v < 0 then -1 else 1)"

text \<open>
  The body of the loop over the inner markers \<open>x = 1, 2, 3\<close>. The divisors are
  differences of ranks; lemma \<open>ranks_increasing_run\<close> below shows that the ranks
  increase strictly, so no divisor is zero and the quotients are those of \<open>real\<close>.
\<close>

definition adjustMarker :: "psquare \<Rightarrow> nat \<Rightarrow> psquare" where
  "adjustMarker st x =
     (let d = nPrime st ! x - real_of_int (n st ! x) in
      if (d \<ge> 1 \<and> (n st ! (x + 1) - n st ! x) > 1) \<or>
         (d \<le> -1 \<and> (n st ! (x - 1) - n st ! x) < -1)
      then
        let s = sign d;
            si = int_of_float64 s;
            nx = real_of_int (n st ! x);
            nxPlusOne = real_of_int (n st ! (x + 1));
            nxMinusOne = real_of_int (n st ! (x - 1));
            qx = q st ! x;
            qxPlusOne = q st ! (x + 1);
            qxMinusOne = q st ! (x - 1);
            parab = q st ! x + (s / (nxPlusOne - nxMinusOne)) *
                      ((nx - nxMinusOne + s) * (qxPlusOne - qx) / (nxPlusOne - nx)
                       + (nxPlusOne - nx - s) * (qx - qxMinusOne) / (nx - nxMinusOne));
            xsi = nat (int x + si);
            qx' = (if qxMinusOne < parab \<and> parab < qxPlusOne then parab
                   else q st ! x + s * ((q st ! xsi - q st ! x)
                                          / real_of_int (n st ! xsi - n st ! x)))
        in st\<lparr> q := (q st)[x := qx'], n := (n st)[x := n st ! x + si] \<rparr>
      else st)"

text \<open>What the callback does with a value from the sixth observation on.\<close>

definition updateMarkers :: "psquare \<Rightarrow> real \<Rightarrow> psquare" where
  "updateMarkers st v =
     (let (st, k) = selectCell st v;
          st = bumpRanks st k;
          st = advanceDesired st
      in fold (\<lambda>x st. adjustMarker st x) [1..<4] st)"

text \<open>The callback; \<open>p\<close> is the fraction, already divided by 100.\<close>

definition observe :: "real \<Rightarrow> psquare \<Rightarrow> real \<Rightarrow> psquare option" where
  "observe p st v =
     (let st = st\<lparr> observations := observations st + 1 \<rparr> in
      if observations st < 6
      then Some (st\<lparr> initalObservations := initalObservations st @ [v] \<rparr>)
      else do {
             st \<leftarrow> (if observations st = 6 then initMarkers p st else Some st);
             Some (updateMarkers st v)
           })"

text \<open>\<open>Iterate\<close> calling a callback that may panic, once for each sample.\<close>

fun iterate_with :: "('s \<Rightarrow> real \<Rightarrow> 's option) \<Rightarrow> real list \<Rightarrow> 's \<Rightarrow> 's option" where
  "iterate_with f [] st = Some st"
| "iterate_with f (v # vs) st =
     (case f st v of None \<Rightarrow> None | Some st' \<Rightarrow> iterate_with f vs st')"

definition FastPercentile :: "real \<Rightarrow> real list \<Rightarrow> real option" where
  "FastPercentile p it =
     (let p = p / 100.0 in
      do {
        st \<leftarrow> iterate_with (observe p) it psquare_init;
        if observations st < 5
        then (let s = bubbleSort (initalObservations st)
              in index s (int (length s) - 1))
        else Some (q st ! 2)
      })"

text \<open>The invariant of the five rank counters: they increase strictly.\<close>

definition ranks_increasing :: "psquare \<Rightarrow> bool" where
  "ranks_increasing st \<longleftrightarrow> length (n st) = 5 \<and> sorted_wrt (<) (n st)"

section \<open>Properties of the time-bucketed window\<close>

lemmas window_defs = Append_def Iterate_def selectBucket_def keepConsistent_def
  resetWindow_def resetBuckets_def clearBucket_def filled_ring_def
  signed_divide_int_def signed_modulo_int_def resetLoop.simps

text \<open>
  The example window is what three calls of \<open>Append\<close> in consecutive buckets leave
  behind, with the constructor of time.go asked for two buckets and with the
  constructor of window.go asked for three.
\<close>

lemma filled_ring_reachable:
  "do { w0 \<leftarrow> NewTimeWindow 50 2;
        w1 \<leftarrow> Append w0 900 1;
        w2 \<leftarrow> Append w1 950 2;
        Append w2 1000 3 } = Some filled_ring"
  by (simp add: NewTimeWindow_def window_defs numeral_3_eq_3)

lemma filled_ring_reachable_prealloc:
  "do { w0 \<leftarrow> NewTimeWindow_prealloc 50 3 0;
        w1 \<leftarrow> Append w0 900 1;
        w2 \<leftarrow> Append w1 950 2;
        Append w2 1000 3 } = Some filled_ring"
  by (simp add: NewTimeWindow_prealloc_def window_defs numeral_3_eq_3)

subsection \<open>What the repair changes\<close>

text \<open>
  The loop of \<open>resetBuckets\<close> touches nothing but the buckets: it empties the bucket
  at offset \<open>(k + lastWindowOffset) % numberOfBuckets\<close> for each \<open>k\<close> from \<open>counter\<close>
  to \<open>distance - 1\<close>, and leaves every other bucket as it is.
\<close>

lemma resetLoop_frame:
  "resetLoop c d w = Some w' \<Longrightarrow>
     w' = w\<lparr>window := window w'\<rparr> \<and> length (window w') = length (window w) \<and>
     (\<forall>i<length (window w). window w' ! i =
         (if \<exists>k. c \<le> k \<and> k < d \<and> int i = (k + lastWindowOffset w) smod numberOfBuckets w
          then [] else window w ! i))"
proof (induction c d w arbitrary: w' rule: resetLoop.induct)
  case (1 counter distance w)
  show ?case
  proof (cases "counter < distance")
    case False
    with "1.prems" show ?thesis by (auto simp: resetLoop.simps[of counter])
  next
    case True
    with "1.prems" obtain w1 where nz: "numberOfBuckets w \<noteq> 0"
      and cb: "clearBucket w ((counter + lastWindowOffset w) smod numberOfBuckets w) = Some w1"
      and rl: "resetLoop (counter + 1) distance w1 = Some w'"
      by (auto simp: resetLoop.simps[of counter] split: if_splits option.splits)
    let ?o = "(counter + lastWindowOffset w) smod numberOfBuckets w"
    from cb have w1: "w1 = w\<lparr>window := (window w)[nat ?o := []]\<rparr>" and o: "0 \<le> ?o" "?o < int (length (window w))"
      by (auto simp: clearBucket_def split: if_splits)
    note ih = "1.IH"[OF True nz cb rl]
    have ex_split: "(\<exists>k. counter \<le> k \<and> k < distance \<and> P k) \<longleftrightarrow>
        P counter \<or> (\<exists>k. counter + 1 \<le> k \<and> k < distance \<and> P k)" for P
    proof
      assume "\<exists>k. counter \<le> k \<and> k < distance \<and> P k"
      then obtain k where k: "counter \<le> k" "k < distance" "P k" by blast
      show "P counter \<or> (\<exists>k. counter + 1 \<le> k \<and> k < distance \<and> P k)"
      proof (cases "k = counter")
        case True with k show ?thesis by simp
      next
        case False with k have "counter + 1 \<le> k" by simp
        with k show ?thesis by blast
      qed
    next
      assume "P counter \<or> (\<exists>k. counter + 1 \<le> k \<and> k < distance \<and> P k)"
      then show "\<exists>k. counter \<le> k \<and> k < distance \<and> P k"
      proof
        assume "P counter" with True show ?thesis by blast
      next
        assume "\<exists>k. counter + 1 \<le> k \<and> k < distance \<and> P k"
        then obtain k where "counter + 1 \<le> k" "k < distance" "P k" by blast
        then have "counter \<le> k \<and> k < distance \<and> P k" by simp
        then show ?thesis by blast
      qed
    qed
    have eq: "w' = w\<lparr>window := window w'\<rparr>" using ih w1 by (cases w', cases w) simp
    have len: "length (window w') = length (window w)" using ih w1 by simp
    have "window w' ! i =
         (if \<exists>k. counter \<le> k \<and> k < distance \<and> int i = (k + lastWindowOffset w) smod numberOfBuckets w
          then [] else window w ! i)" if i: "i < length (window w)" for i
    proof -
      have a: "window w' ! i = (if \<exists>k. counter + 1 \<le> k \<and> k < distance \<and>
                 int i = (k + lastWindowOffset w) smod numberOfBuckets w
               then [] else (window w)[nat ?o := []] ! i)"
      proof -
        from ih have "\<forall>i<length (window w1). window w' ! i =
           (if \<exists>k. counter + 1 \<le> k \<and> k < distance \<and>
                 int i = (k + lastWindowOffset w1) smod numberOfBuckets w1
            then [] else window w1 ! i)" by blast
        moreover have "i < length (window w1)" using i w1 by simp
        ultimately have "window w' ! i =
           (if \<exists>k. counter + 1 \<le> k \<and> k < distance \<and>
                 int i = (k + lastWindowOffset w1) smod numberOfBuckets w1
            then [] else window w1 ! i)" by blast
        moreover have "lastWindowOffset w1 = lastWindowOffset w" "numberOfBuckets w1 = numberOfBuckets w"
          "window w1 = (window w)[nat ?o := []]" by (simp_all add: w1)
        ultimately show ?thesis by (simp only:)
      qed
      have b: "(window w)[nat ?o := []] ! i = (if int i = ?o then [] else window w ! i)"
        using i o by (auto simp: nth_list_update)
      show ?thesis unfolding a b ex_split[of "\<lambda>k. int i = (k + lastWindowOffset w) smod numberOfBuckets w"]
        by auto
    qed
    with eq len show ?thesis by blast
  qed
qed


lemma resetBuckets_frame:
  "resetBuckets w off = Some w' \<Longrightarrow>
     w' = w\<lparr>window := window w'\<rparr> \<and> length (window w') = length (window w) \<and>
     (\<forall>i<length (window w). window w' ! i = window w ! i \<or> window w' ! i = [])"
  unfolding resetBuckets_def Let_def
  by (drule resetLoop_frame) presburger

lemma keepConsistent_frame:
  assumes "keepConsistent w t off = Some w'"
  shows "w' = w\<lparr>window := window w'\<rparr> \<and> length (window w') = length (window w) \<and>
     (\<forall>i<length (window w). window w' ! i = window w ! i \<or> window w' ! i = [])"
proof (cases "t - lastWindowTime w > numberOfBuckets64 w")
  case True
  with assms have "w' = resetWindow w"
    by (simp add: keepConsistent_def resetWindow_def)
  then show ?thesis by (simp add: resetWindow_def)
next
  case False
  show ?thesis
  proof (cases "t \<noteq> lastWindowTime w \<and> t - lastWindowTime w < numberOfBuckets64 w")
    case True
    with False assms have "resetBuckets w off = Some w'"
      by (simp add: keepConsistent_def)
    then show ?thesis by (rule resetBuckets_frame)
  next
    case no: False
    with False assms have "w' = w"
      by (auto simp add: keepConsistent_def)
    then show ?thesis by simp
  qed
qed


text \<open>
  The buckets that \<open>resetBuckets\<close> empties lie strictly between the last offset and
  the current one in ring order: the current bucket is not among them.
\<close>

lemma resetBuckets_between:
  assumes "resetBuckets w off = Some w'" "i < length (window w)"
  shows "window w' ! i =
     (if \<exists>k. 1 \<le> k \<and>
              k < (if off - lastWindowOffset w < 0
                   then (numberOfBuckets w - lastWindowOffset w) + off
                   else off - lastWindowOffset w) \<and>
              int i = (k + lastWindowOffset w) smod numberOfBuckets w
      then [] else window w ! i)"
  using assms(1) unfolding resetBuckets_def Let_def
  by (drule_tac resetLoop_frame) (use assms(2) in blast)

text \<open>More than a ring of buckets since the last touch: every bucket is emptied.\<close>

lemma keepConsistent_stale:
  "numberOfBuckets64 w < t - lastWindowTime w \<Longrightarrow>
   keepConsistent w t off = Some (resetWindow w)"
  by (simp add: keepConsistent_def resetWindow_def)

lemma resetWindow_empty: "set (window (resetWindow w)) \<subseteq> {[]}"
  by (auto simp add: resetWindow_def)

text \<open>Exactly a ring of buckets since the last touch: neither test holds.\<close>

lemma keepConsistent_gap_ring:
  "t - lastWindowTime w = numberOfBuckets64 w \<Longrightarrow> keepConsistent w t off = Some w"
  by (simp add: keepConsistent_def)

text \<open>
  One bucket since the last touch, on any window whose markers agree with each other:
  the repair changes nothing, whatever the bucket of the new time holds.
\<close>

lemma keepConsistent_next_bucket:
  assumes "0 < numberOfBuckets w" "numberOfBuckets64 w = numberOfBuckets w"
    and "0 \<le> lastWindowTime w"
    and "lastWindowOffset w = lastWindowTime w smod numberOfBuckets w"
  shows "keepConsistent w (lastWindowTime w + 1)
           ((lastWindowTime w + 1) smod numberOfBuckets w) = Some w"
proof -
  let ?L = "lastWindowTime w" and ?m = "numberOfBuckets w"
  have a: "?L smod ?m = ?L mod ?m"
    using assms(1,3) by (simp add: signed_modulo_int_def sgn_if)
  have b: "(?L + 1) smod ?m = (?L + 1) mod ?m"
    using assms(1,3) by (simp add: signed_modulo_int_def sgn_if)
  have rng: "0 \<le> ?L mod ?m" "?L mod ?m < ?m" using assms(1) by simp_all
  have c: "(?L + 1) mod ?m = (if ?L mod ?m + 1 = ?m then 0 else ?L mod ?m + 1)"
  proof -
    have "(?L + 1) mod ?m = (?L mod ?m + 1) mod ?m" by (simp add: mod_add_left_eq)
    then show ?thesis using rng by (auto simp: mod_pos_pos_trivial)
  qed
  have loop: "resetLoop 1 d w = Some w" if "d \<le> 1" for d
    using that by (simp add: resetLoop.simps)
  have "resetBuckets w ((?L + 1) smod ?m) = Some w"
    using rng by (auto simp: resetBuckets_def Let_def assms(4) a b c intro!: loop)
  then show ?thesis
    using assms(1,2) by (simp add: keepConsistent_def)
qed


subsection \<open>A touch one bucket later\<close>

text \<open>
  Claim C1: on a time-bucketed window with \<open>k\<close> populated buckets, a touch (\<open>Append\<close>
  or \<open>Iterate\<close>) one bucket duration after the last one retires exactly one bucket and
  leaves the other \<open>k - 1\<close> as they are.

  The code retires none. The example window holds one sample in each of its three
  slots and was last touched in bucket 20; the touch comes at 1050 ns, in bucket 21,
  whose slot 0 still holds the sample of bucket 18. The repair leaves all three
  buckets as they are, \<open>Iterate\<close> visits all three samples, and \<open>Append\<close> puts the new
  sample behind the one of bucket 18.
\<close>

theorem one_bucket_advance_retires_nothing:
  "selectBucket filled_ring 1050 = Some (21, 0) \<and>
   keepConsistent filled_ring 21 0 = Some filled_ring \<and>
   Iterate filled_ring 1050 = Some (filled_ring, [1, 2, 3]) \<and>
   Append filled_ring 1050 4 =
     Some (filled_ring\<lparr> window := [[1, 4], [2], [3]],
                        lastWindowTime := 21, lastWindowOffset := 0 \<rparr>)"
  by (simp add: window_defs)

subsection \<open>A touch exactly one ring later\<close>

text \<open>
  Claim C2: after every \<open>Append\<close> and \<open>Iterate\<close> whose bucket index differs from
  \<open>lastWindowTime\<close>, the repair has emptied every bucket that left the live window:
  all of them when the gap exceeds \<open>numberOfBuckets\<close>, otherwise those strictly between
  the last and the current offset; for every gap other than zero one of the two
  branches runs.

  At a gap of exactly \<open>numberOfBuckets\<close> neither test of \<open>keepConsistent\<close> holds. The
  example window (three buckets, last touched in bucket 20) is touched in bucket 23:
  no branch runs, no bucket is emptied, and \<open>Append\<close> puts the new sample into the
  bucket that still holds the sample of bucket 20.
\<close>

theorem gap_of_one_ring_runs_no_branch:
  "selectBucket filled_ring 1150 = Some (23, 2) \<and>
   23 \<noteq> lastWindowTime filled_ring \<and>
   \<not> 23 - lastWindowTime filled_ring > numberOfBuckets64 filled_ring \<and>
   \<not> 23 - lastWindowTime filled_ring < numberOfBuckets64 filled_ring \<and>
   keepConsistent filled_ring 23 2 = Some filled_ring \<and>
   Append filled_ring 1150 4 =
     Some (filled_ring\<lparr> window := [[1], [2], [3, 4]],
                        lastWindowTime := 23, lastWindowOffset := 2 \<rparr>)"
  by (simp add: window_defs)

subsection \<open>A touch after more than the configured number of buckets\<close>

text \<open>
  Claim C3: a touch that comes more than the configured number of buckets after the
  last one (current bucket index minus \<open>lastWindowTime\<close> greater than the number of
  buckets given to \<open>NewTimeWindow\<close>) leaves every bucket empty before the sample is
  appended or any sample is visited.

  \<open>NewTimeWindow\<close> of time.go stores the configured number plus one, and
  \<open>keepConsistent\<close> compares the gap with the stored number. The example window was
  made for two buckets (lemma \<open>filled_ring_reachable\<close>) and is touched three buckets
  after its last touch: \<open>Iterate\<close> still visits all three samples.
\<close>

theorem stale_window_survives_touch:
  "NewTimeWindow 50 2 \<noteq> None \<and>
   numberOfBuckets64 filled_ring = 2 + 1 \<and>
   selectBucket filled_ring 1150 = Some (23, 2) \<and>
   23 - lastWindowTime filled_ring > 2 \<and>
   Iterate filled_ring 1150 = Some (filled_ring, [1, 2, 3])"
  by (simp add: NewTimeWindow_def window_defs)

subsection \<open>The markers of the last touch\<close>

text \<open>
  Claim C7, as the code has it: \<open>Append\<close> sets \<open>lastWindowTime\<close> and \<open>lastWindowOffset\<close>
  to the bucket index and ring offset of the current time; \<open>Iterate\<close> runs the same
  repair and leaves both markers as they were. Neither changes any other field, nor
  the number of buckets; a bucket is left as it was or emptied by the repair, and
  \<open>Append\<close> then adds its sample to the bucket at the current offset.

  The same repair: the window that \<open>Iterate\<close> leaves is the result of \<open>keepConsistent\<close>
  at the bucket index and offset of the current time, its samples are the ones
  visited, and the window that \<open>Append\<close> leaves is that window with the sample added
  to the bucket at the current offset.
\<close>

theorem touch_markers:
  "(Append w now v = Some wa \<longrightarrow>
      selectBucket w now = Some (lastWindowTime wa, lastWindowOffset wa) \<and>
      wa = w\<lparr>window := window wa, lastWindowOffset := lastWindowOffset wa,
                 lastWindowTime := lastWindowTime wa\<rparr> \<and>
      length (window wa) = length (window w) \<and>
      (\<forall>i<length (window w).
          if int i = lastWindowOffset wa
          then window wa ! i = window w ! i @ [v] \<or> window wa ! i = [v]
          else window wa ! i = window w ! i \<or> window wa ! i = []) \<and>
      (\<exists>w1. keepConsistent w (lastWindowTime wa) (lastWindowOffset wa) = Some w1 \<and>
            Iterate w now = Some (w1, concat (window w1)) \<and>
            0 \<le> lastWindowOffset wa \<and> lastWindowOffset wa < int (length (window w1)) \<and>
            window wa = (window w1)[nat (lastWindowOffset wa) :=
                                     window w1 ! nat (lastWindowOffset wa) @ [v]]))
   \<and>
   (Iterate w now = Some (wi, vs) \<longrightarrow>
      (\<exists>t off. selectBucket w now = Some (t, off) \<and> keepConsistent w t off = Some wi) \<and>
      lastWindowTime wi = lastWindowTime w \<and>
      lastWindowOffset wi = lastWindowOffset w \<and>
      wi = w\<lparr>window := window wi\<rparr> \<and>
      length (window wi) = length (window w) \<and>
      (\<forall>i<length (window w). window wi ! i = window w ! i \<or> window wi ! i = []) \<and>
      vs = concat (window wi))
   \<and>
   (Append w now v = Some wa \<longrightarrow> Iterate w now = Some (wi, vs) \<longrightarrow>
      window wa = (window wi)[nat (lastWindowOffset wa) :=
                               window wi ! nat (lastWindowOffset wa) @ [v]])"
proof (intro conjI impI)
  assume a: "Append w now v = Some wa" and b: "Iterate w now = Some (wi, vs)"
  from a obtain t off w1 where sb: "selectBucket w now = Some (t, off)"
    and kc: "keepConsistent w t off = Some w1"
    and wa: "wa = w1\<lparr> window := (window w1)[nat off := window w1 ! nat off @ [v]],
                      lastWindowTime := t, lastWindowOffset := off \<rparr>"
    by (auto simp: Append_def split: bind_splits if_splits)
  from b sb kc have "wi = w1" by (simp add: Iterate_def)
  then show "window wa = (window wi)[nat (lastWindowOffset wa) :=
                               window wi ! nat (lastWindowOffset wa) @ [v]]"
    by (simp add: wa)
next
  assume a: "Iterate w now = Some (wi, vs)"
  then obtain t off where sb: "selectBucket w now = Some (t, off)"
    and kc: "keepConsistent w t off = Some wi" and vs: "vs = concat (window wi)"
    by (auto simp: Iterate_def split: bind_splits)
  show "\<exists>t off. selectBucket w now = Some (t, off) \<and> keepConsistent w t off = Some wi"
    using sb kc by blast
  note fr = keepConsistent_frame[OF kc]
  from fr have eq: "wi = w\<lparr>window := window wi\<rparr>" by blast
  show "lastWindowTime wi = lastWindowTime w" by (subst eq) simp
  show "lastWindowOffset wi = lastWindowOffset w" by (subst eq) simp
  show "wi = w\<lparr>window := window wi\<rparr>" by (rule eq)
  show "length (window wi) = length (window w)" using fr by blast
  show "\<forall>i<length (window w). window wi ! i = window w ! i \<or> window wi ! i = []"
    using fr by blast
  show "vs = concat (window wi)" by (rule vs)
next
  assume a: "Append w now v = Some wa"
  then obtain t off w1 where sb: "selectBucket w now = Some (t, off)"
    and kc: "keepConsistent w t off = Some w1"
    and rng: "0 \<le> off" "off < int (length (window w1))"
    and wa: "wa = w1\<lparr> window := (window w1)[nat off := window w1 ! nat off @ [v]],
                      lastWindowTime := t, lastWindowOffset := off \<rparr>"
    by (auto simp: Append_def split: bind_splits if_splits)
  note fr = keepConsistent_frame[OF kc]
  from fr have eq: "w1 = w\<lparr>window := window w1\<rparr>" by blast
  have t: "lastWindowTime wa = t" and off: "lastWindowOffset wa = off" by (simp_all add: wa)
  show "selectBucket w now = Some (lastWindowTime wa, lastWindowOffset wa)"
    by (simp add: sb t off)
  show "wa = w\<lparr>window := window wa, lastWindowOffset := lastWindowOffset wa,
                 lastWindowTime := lastWindowTime wa\<rparr>"
    unfolding wa by (subst (1 2) eq) simp
  show len: "length (window wa) = length (window w)" using fr by (simp add: wa)
  show "\<exists>w1. keepConsistent w (lastWindowTime wa) (lastWindowOffset wa) = Some w1 \<and>
            Iterate w now = Some (w1, concat (window w1)) \<and>
            0 \<le> lastWindowOffset wa \<and> lastWindowOffset wa < int (length (window w1)) \<and>
            window wa = (window w1)[nat (lastWindowOffset wa) :=
                                     window w1 ! nat (lastWindowOffset wa) @ [v]]"
  proof (intro exI[of _ w1] conjI)
    show "keepConsistent w (lastWindowTime wa) (lastWindowOffset wa) = Some w1"
      by (simp add: t off kc)
    show "Iterate w now = Some (w1, concat (window w1))"
      by (simp add: Iterate_def sb kc)
    show "0 \<le> lastWindowOffset wa" "lastWindowOffset wa < int (length (window w1))"
      using rng by (simp_all add: off)
    show "window wa = (window w1)[nat (lastWindowOffset wa) :=
                                     window w1 ! nat (lastWindowOffset wa) @ [v]]"
      by (simp add: wa)
  qed
  show "\<forall>i<length (window w).
          if int i = lastWindowOffset wa
          then window wa ! i = window w ! i @ [v] \<or> window wa ! i = [v]
          else window wa ! i = window w ! i \<or> window wa ! i = []"
  proof (intro allI impI)
    fix i assume i: "i < length (window w)"
    with fr have c: "window w1 ! i = window w ! i \<or> window w1 ! i = []" by blast
    have i1: "i < length (window w1)" using fr i by simp
    show "if int i = lastWindowOffset wa
          then window wa ! i = window w ! i @ [v] \<or> window wa ! i = [v]
          else window wa ! i = window w ! i \<or> window wa ! i = []"
    proof (cases "int i = off")
      case True
      then have "nat off = i" by simp
      then have "window wa ! i = window w1 ! i @ [v]" using i1 by (simp add: wa)
      with c True off show ?thesis by auto
    next
      case False
      then have "nat off \<noteq> i" using rng by auto
      then have "window wa ! i = window w1 ! i" by (simp add: wa)
      with c False off show ?thesis by auto
    qed
  qed
qed

theorem touch_markers_witness:
  "Append filled_ring 1100 4 =
     Some (filled_ring\<lparr> window := [[], [2, 4], [3]],
                        lastWindowOffset := 1, lastWindowTime := 22 \<rparr>) \<and>
   Iterate filled_ring 1100 = Some (filled_ring\<lparr> window := [[], [2], [3]] \<rparr>, [2, 3]) \<and>
   selectBucket filled_ring 1100 = Some (22, 1) \<and>
   keepConsistent filled_ring 22 1 = Some (filled_ring\<lparr> window := [[], [2], [3]] \<rparr>)"
  using touch_markers[of filled_ring 1100 4
      "filled_ring\<lparr> window := [[], [2, 4], [3]], lastWindowOffset := 1, lastWindowTime := 22 \<rparr>"
      "filled_ring\<lparr> window := [[], [2], [3]] \<rparr>" "[2, 3]"]
  by (simp add: window_defs numeral_2_eq_2)

text \<open>
  Claim C7 as stated (after \<open>Iterate\<close>, too, the markers are those of the current
  time) fails: the example window is read in bucket 21, at offset 0, and keeps the
  markers 20 and 2.
\<close>

theorem Iterate_markers_counterexample:
  "Iterate filled_ring 1050 = Some (filled_ring, [1, 2, 3]) \<and>
   selectBucket filled_ring 1050 = Some (21, 0) \<and>
   lastWindowTime filled_ring \<noteq> 21 \<and> lastWindowOffset filled_ring \<noteq> 0"
  by (simp add: window_defs)

section \<open>Properties of the reducers\<close>

subsection \<open>The empty window\<close>

lemma Mod1_minus_half: "Mod1 (- (1 / 2)) = - (1 / 2)"
proof -
  have "\<lceil>- (1 / 2) :: real\<rceil> = 0" by (simp add: ceiling_eq_iff)
  then show ?thesis by (simp add: Mod1_def int_of_float64_def)
qed

text \<open>\<open>Percentile\<close> of reduce.go reads \<open>values[-1]\<close> when there is no sample.\<close>

lemma Percentile_empty: "Percentile p [] = None"
  by (simp add: Percentile_def Let_def index_def Mod1_minus_half)

text \<open>
  Claim C4, as the code has it: on a window without samples the percentile
  aggregator of aggregate.go returns exactly 0.0, and the two average reducers
  divide 0.0 by 0.0, which is NaN.
\<close>

theorem empty_window_reducers:
  "Aggregate p [] = Some 0 \<and> Avg [] = NaN \<and> avg [] = NaN"
  by (simp add: Aggregate_def Avg_def avg_def float_div_def)

text \<open>
  Claim C4 as stated (the average and the exact percentile reducers return 0.0 on an
  empty window, neither NaN nor a failure) fails for \<open>Avg\<close>, whose result is not 0.0,
  and for \<open>Percentile\<close>, which panics.
\<close>

theorem Avg_empty_counterexample: "Avg [] \<noteq> Finite 0 \<and> Percentile 50 [] = None"
  by (simp add: Avg_def float_div_def Percentile_def Let_def index_def Mod1_minus_half)

subsection \<open>The hundred samples 1 to 100\<close>

lemma sort_upt: "sort (map real [i..<j]) = map real [i..<j]"
  by (intro sorted_sort_id) (simp add: sorted_map sorted_wrt_iff_nth_less)

text \<open>
  Claim C5: over a window that holds exactly the samples 1, 2, ..., 100 (in any
  order), the percentile aggregator gives 20 for the 20th percentile, 50 for the
  50th, 99 for the 99th, and 99.9 = 0.1 * 99 + 0.9 * 100 for the 99.9th.
\<close>

theorem Aggregate_dense_hundred:
  assumes "mset it = mset (map real [1..<101])"
  shows "Aggregate 20 it = Some 20 \<and> Aggregate 50 it = Some 50 \<and>
         Aggregate 99 it = Some 99 \<and> Aggregate 99.9 it = Some 99.9 \<and>
         (99.9 :: real) = 0.1 * 99 + 0.9 * 100"
proof -
  have len: "length it = 100" using mset_eq_length[OF assms] by simp
  have srt: "sort it = map real [1..<101]"
    using assms sort_upt[of 1 101] by (metis properties_for_sort sorted_sort)
  have ne: "it \<noteq> []" using len by auto
  have a: "Aggregate 20 it = Some 20"
    using ne by (simp add: Aggregate_def Let_def len srt index_def Mod1_def int_of_float64_def)
  have b: "Aggregate 50 it = Some 50"
    using ne by (simp add: Aggregate_def Let_def len srt index_def Mod1_def int_of_float64_def)
  have c: "Aggregate 99 it = Some 99"
    using ne by (simp add: Aggregate_def Let_def len srt index_def Mod1_def int_of_float64_def)
  have d: "Aggregate 99.9 it = Some 99.9"
    using ne by (simp add: Aggregate_def Let_def len srt index_def Mod1_def int_of_float64_def)
  from a b c d show ?thesis by simp
qed

theorem Aggregate_dense_hundred_witness:
  "mset (100 # map real [1..<100]) = mset (map real [1..<101]) \<and>
   Aggregate 20 (100 # map real [1..<100]) = Some 20 \<and>
   Aggregate 50 (100 # map real [1..<100]) = Some 50 \<and>
   Aggregate 99 (100 # map real [1..<100]) = Some 99 \<and>
   Aggregate 99.9 (100 # map real [1..<100]) = Some 99.9"
proof -
  have "[1..<101] = [1..<100] @ [100::nat]" by (simp add: upt_Suc_append numeral_eq_Suc)
  then have h: "mset (100 # map real [1..<100]) = mset (map real [1..<101])" by simp
  from h Aggregate_dense_hundred[OF h] show ?thesis by simp
qed

text \<open>\<open>Percentile\<close> of reduce.go has the other rank formula, and other values.\<close>

lemma Percentile_dense_hundred:
  "Percentile 20 (map real [1..<101]) = Some 20.5 \<and> Percentile 99.9 (map real [1..<101]) = Some 100"
  by (simp add: Percentile_def Let_def sort_upt index_def Mod1_def int_of_float64_def)

subsection \<open>Ranks below zero\<close>

text \<open>
  Claim C9: for a percentile \<open>p\<close> in [0, 100] and at least two samples with
  \<open>(p / 100) * count - 1 < 0\<close>, the index \<open>k\<close> is -1, the read of the sorted samples at
  \<open>k\<close> is out of range, and the aggregator has no result.
\<close>

theorem Aggregate_negative_index:
  assumes "0 \<le> p" "p \<le> 100" "2 \<le> length it" "(p / 100) * real (length it) - 1 < 0"
  shows "\<lfloor>(p / 100) * real (length it) - 1\<rfloor> = -1 \<and>
         index (sort it) \<lfloor>(p / 100) * real (length it) - 1\<rfloor> = None \<and>
         Aggregate p it = None"
proof -
  let ?r = "(p / 100) * real (length it) - 1"
  have "0 \<le> (p / 100) * real (length it)" using assms(1) by simp
  then have "-1 \<le> ?r" by simp
  with assms(4) have k: "\<lfloor>?r\<rfloor> = -1" by (simp add: floor_eq_iff)
  have i: "index (sort it) (-1) = None" by (simp add: index_def)
  have ne: "it \<noteq> []" using assms(3) by auto
  have "Aggregate p it = None"
    using assms(3) ne by (simp add: Aggregate_def Let_def k[simplified] i)
  with k i show ?thesis by simp
qed

theorem Aggregate_negative_index_witness:
  "(0::real) \<le> 20 \<and> (20::real) \<le> 100 \<and> 2 \<le> length [1, 2 :: real] \<and>
   (20 / 100) * real (length [1, 2 :: real]) - 1 < 0 \<and>
   Aggregate 20 [1, 2] = None"
  using Aggregate_negative_index[of 20 "[1, 2]"] by simp

lemma Aggregate_zero_percentile: "2 \<le> length it \<Longrightarrow> Aggregate 0 it = None"
  by (auto simp add: Aggregate_def Let_def index_def)


lemma Percentile_zero_percentile: "Percentile 0 it = None"
  by (simp add: Percentile_def Let_def index_def Mod1_minus_half)

subsection \<open>One sample\<close>

lemma Aggregate_one_sample: "Aggregate p [x] = Some x"
  by (simp add: Aggregate_def index_def)

section \<open>Properties of \<open>FastPercentile\<close>\<close>

subsection \<open>\<open>bubbleSort\<close> sorts\<close>

text \<open>
  A pass moves the greatest element to the end, and the passes before a greatest last
  element are the passes of the list without it: as many passes as elements sort.
\<close>

lemma mset_bubblePass: "mset (bubblePass s) = mset s"
  by (induction s rule: bubblePass.induct) auto

lemma set_bubblePass: "set (bubblePass s) = set s"
  using mset_bubblePass[of s] by (metis set_mset_mset)

lemma length_bubblePass: "length (bubblePass s) = length s"
  using mset_bubblePass[of s] by (metis size_mset)

lemma bubblePass_snoc:
  "\<forall>y\<in>set ys. y \<le> m \<Longrightarrow> bubblePass (ys @ [m]) = bubblePass ys @ [m]"
  by (induction ys rule: bubblePass.induct) auto

lemma bubblePass_last:
  "s \<noteq> [] \<Longrightarrow> \<exists>ys. bubblePass s = ys @ [Max (set s)]"
proof (induction s rule: bubblePass.induct)
  case (1 a b s)
  show ?case
  proof (cases "a > b")
    case True
    from 1(1)[OF True] obtain ys where ys: "bubblePass (a # s) = ys @ [Max (set (a # s))]" by auto
    have "Max (set (a # b # s)) = Max (set (a # s))"
      using True by (cases "s = []") (auto simp: max_def)
    with ys True show ?thesis by simp
  next
    case False
    from 1(2)[OF False] obtain ys where ys: "bubblePass (b # s) = ys @ [Max (set (b # s))]" by auto
    have "Max (set (a # b # s)) = Max (set (b # s))"
      using False by (cases "s = []") (auto simp: max_def)
    with ys False show ?thesis by simp
  qed
qed auto

lemma mset_bubblePasses: "mset ((bubblePass ^^ k) s) = mset s"
  by (induction k) (auto simp: mset_bubblePass)

lemma bubblePasses_snoc:
  "\<forall>y\<in>set ys. y \<le> m \<Longrightarrow> (bubblePass ^^ k) (ys @ [m]) = (bubblePass ^^ k) ys @ [m]"
proof (induction k)
  case (Suc k)
  have "set ((bubblePass ^^ k) ys) = set ys"
    using mset_bubblePasses[of k ys] by (metis set_mset_mset)
  with Suc show ?case by (simp add: bubblePass_snoc)
qed simp

lemma sorted_bubblePasses: "length s \<le> k \<Longrightarrow> sorted ((bubblePass ^^ k) s)"
proof (induction k arbitrary: s)
  case 0
  then show ?case by simp
next
  case (Suc k)
  show ?case
  proof (cases "s = []")
    case True
    have "(bubblePass ^^ j) [] = []" for j by (induction j) auto
    with True show ?thesis by simp
  next
    case False
    then obtain ys where ys: "bubblePass s = ys @ [Max (set s)]"
      using bubblePass_last by blast
    have len: "length ys \<le> k"
      using length_bubblePass[of s] ys Suc.prems by simp
    have le: "\<forall>y\<in>set ys. y \<le> Max (set s)"
      using set_bubblePass[of s] ys by (metis List.finite_set Max_ge Un_iff set_append)
    have "(bubblePass ^^ Suc k) s = (bubblePass ^^ k) (bubblePass s)"
      by (simp add: funpow_swap1)
    also have "\<dots> = (bubblePass ^^ k) ys @ [Max (set s)]"
      using ys le by (simp add: bubblePasses_snoc)
    finally have eq: "(bubblePass ^^ Suc k) s = (bubblePass ^^ k) ys @ [Max (set s)]" .
    have "set ((bubblePass ^^ k) ys) = set ys"
      using mset_bubblePasses[of k ys] by (metis set_mset_mset)
    with le Suc.IH[OF len] show ?thesis
      unfolding eq by (simp add: sorted_append)
  qed
qed

lemma bubbleSort_sort: "bubbleSort s = sort s"
proof -
  have "sorted (bubbleSort s)" by (simp add: bubbleSort_def sorted_bubblePasses)
  moreover have "mset (bubbleSort s) = mset s" by (simp add: bubbleSort_def mset_bubblePasses)
  ultimately show ?thesis by (metis properties_for_sort)
qed

subsection \<open>The first five observations\<close>

lemma observe_priming:
  assumes "observations st = of_nat k" "k < 5"
  shows "observe p st v = Some (st\<lparr> observations := of_nat (Suc k),
                                      initalObservations := initalObservations st @ [v] \<rparr>)"
proof -
  from assms(2) have "k = 0 \<or> k = 1 \<or> k = 2 \<or> k = 3 \<or> k = 4" by arith
  then have "(of_nat k + 1 :: 64 word) < 6" by auto
  then show ?thesis using assms(1) by (simp add: observe_def Let_def)
qed

lemma iterate_priming:
  "observations st = of_nat k \<Longrightarrow> k + length vs \<le> 5 \<Longrightarrow>
   iterate_with (observe p) vs st =
     Some (st\<lparr> observations := of_nat (k + length vs),
               initalObservations := initalObservations st @ vs \<rparr>)"
proof (induction vs arbitrary: st k)
  case Nil
  then show ?case by simp
next
  case (Cons v vs)
  let ?st = "st\<lparr> observations := of_nat (Suc k),
                  initalObservations := initalObservations st @ [v] \<rparr>"
  have step: "observe p st v = Some ?st"
    using Cons.prems by (intro observe_priming) auto
  have "iterate_with (observe p) vs ?st =
     Some (?st\<lparr> observations := of_nat (Suc k + length vs),
               initalObservations := initalObservations ?st @ vs \<rparr>)"
    using Cons.prems by (intro Cons.IH) auto
  with step show ?case by simp
qed

lemma priming:
  "length it \<le> 5 \<Longrightarrow>
   iterate_with (observe p) it psquare_init =
     Some (psquare_init\<lparr> observations := of_nat (length it), initalObservations := it \<rparr>)"
  using iterate_priming[of psquare_init 0 it p] by (simp add: psquare_init_def)

text \<open>
  Claim C10: for every sequence of exactly five samples \<open>FastPercentile\<close> returns
  0.0: the markers are set at the sixth observation only, five is not fewer than
  five, and \<open>q[2]\<close> still holds the zero it started with.
\<close>

theorem FastPercentile_five_samples:
  assumes "length it = 5"
  shows "FastPercentile p it = Some 0"
proof -
  have "iterate_with (observe (p / 100)) it psquare_init =
     Some (psquare_init\<lparr> observations := 5, initalObservations := it \<rparr>)"
    using priming[of it "p / 100"] assms by simp
  then show ?thesis
    by (simp add: FastPercentile_def psquare_init_def numeral_eq_Suc)
qed

theorem FastPercentile_five_samples_witness:
  "length [3, 1, 4, 1, 5 :: real] = 5 \<and> FastPercentile 50 [3, 1, 4, 1, 5] = Some 0"
  using FastPercentile_five_samples[of "[3, 1, 4, 1, 5]" 50] by simp

subsection \<open>Fewer than five observations\<close>

text \<open>
  Claim C6: the exact percentile of a window with one sample is that sample, and
  \<open>FastPercentile\<close> over fewer than five samples, zero samples included, returns the
  greatest one; neither fails.

  The code fails on zero samples: \<open>initalObservations[len(initalObservations)-1]\<close> is
  a read at index -1. With one to four samples it returns the greatest (lemma
  \<open>FastPercentile_few_samples\<close>), and the aggregator returns a single sample (lemma
  \<open>Aggregate_one_sample\<close>).
\<close>

theorem FastPercentile_no_samples: "FastPercentile p [] = None"
  by (simp add: FastPercentile_def psquare_init_def bubbleSort_def index_def)

lemma sorted_last_Max:
  assumes "sorted xs" "xs \<noteq> []"
  shows "last xs = Max (set xs)"
proof -
  have "sorted (butlast xs @ [last xs])" using assms by simp
  then have "\<forall>y\<in>set (butlast xs). y \<le> last xs" by (simp add: sorted_append)
  moreover have "set xs = insert (last xs) (set (butlast xs))"
    using assms(2) by (metis append_butlast_last_id list.simps(15) rotate1.simps(2) set_rotate1)
  ultimately have "\<forall>y\<in>set xs. y \<le> last xs" by auto
  then show ?thesis using assms(2) by (intro Max_eqI[symmetric]) auto
qed

lemma FastPercentile_few_samples:
  assumes "1 \<le> length it" "length it < 5"
  shows "FastPercentile p it = Some (Max (set it))"
proof -
  from assms have ne: "it \<noteq> []" by auto
  from assms have "length it = 1 \<or> length it = 2 \<or> length it = 3 \<or> length it = 4" by arith
  then have lt: "(of_nat (length it) :: 64 word) < 5" by auto
  have run: "iterate_with (observe (p / 100)) it psquare_init =
     Some (psquare_init\<lparr> observations := of_nat (length it), initalObservations := it \<rparr>)"
    using priming[of it "p / 100"] assms by simp
  have "sort it \<noteq> []" using ne by (metis length_sort length_0_conv)
  moreover have "last (sort it) = Max (set it)"
    using sorted_last_Max[of "sort it"] \<open>sort it \<noteq> []\<close> by simp
  ultimately have "index (sort it) (int (length (sort it)) - 1) = Some (Max (set it))"
    by (simp add: index_def last_conv_nth nat_diff_distrib' del: length_sort) 
  then show ?thesis using run lt
    by (simp add: FastPercentile_def bubbleSort_sort)
qed

subsection \<open>The sixth observation\<close>

lemma list_of_five: "length s = 5 \<Longrightarrow> [s ! 0, s ! 1, s ! 2, s ! 3, s ! 4] = s"
  by (rule nth_equalityI) (auto simp: numeral_eq_Suc less_Suc_eq)

text \<open>
  Claim C8: when \<open>FastPercentile\<close> processes its sixth observation with the fraction
  \<open>p\<close>, it first sorts the five recorded values in ascending order into \<open>q\<close> and sets
  the ranks \<open>n\<close> to 0, 1, 2, 3, 4, the desired ranks \<open>n'\<close> to 0, 2p, 4p, 2 + 2p, 4 and
  their increments \<open>dn'\<close> to 0, p/2, p, (1 + p)/2, 1; the sixth value is then
  processed on these markers.
\<close>

theorem sixth_observation_initialises:
  assumes "length it = 5"
  shows "\<exists>st5 st6.
           iterate_with (observe p) it psquare_init = Some st5 \<and>
           initMarkers p (st5\<lparr> observations := 6 \<rparr>) = Some st6 \<and>
           observe p st5 v = Some (updateMarkers st6 v) \<and>
           q st6 = sort it \<and>
           n st6 = [0, 1, 2, 3, 4] \<and>
           nPrime st6 = [0, 2 * p, 4 * p, 2 + 2 * p, 4] \<and>
           dnPrime st6 = [0, p / 2, p, (1 + p) / 2, 1]"
proof -
  let ?st5 = "psquare_init\<lparr> observations := 5, initalObservations := it \<rparr>"
  let ?st6 = "?st5\<lparr> observations := 6, initalObservations := sort it, q := sort it,
                 n := [0, 1, 2, 3, 4],
                 nPrime := [0, 2 * p, 4 * p, 2 + 2 * p, 4],
                 dnPrime := [0, p / 2, p, (1 + p) / 2, 1] \<rparr>"
  have run: "iterate_with (observe p) it psquare_init = Some ?st5"
    using priming[of it p] assms by simp
  have five: "[sort it ! 0, sort it ! 1, sort it ! 2, sort it ! 3, sort it ! 4] = sort it"
    using assms by (intro list_of_five) simp
  have init: "initMarkers p (?st5\<lparr> observations := 6 \<rparr>) = Some ?st6"
    using assms five by (simp add: initMarkers_def bubbleSort_sort Let_def)
  have obs: "observe p ?st5 v = Some (updateMarkers ?st6 v)"
    using init by (simp add: observe_def)
  show ?thesis
    using run init obs by (intro exI[of _ ?st5] exI[of _ ?st6]) simp
qed

theorem sixth_observation_initialises_witness:
  "length [3, 1, 4, 1, 5 :: real] = 5 \<and>
   (\<exists>st5 st6.
           iterate_with (observe (1/2)) [3, 1, 4, 1, 5] psquare_init = Some st5 \<and>
           initMarkers (1/2) (st5\<lparr> observations := 6 \<rparr>) = Some st6 \<and>
           observe (1/2) st5 9 = Some (updateMarkers st6 9) \<and>
           q st6 = [1, 1, 3, 4, 5] \<and>
           n st6 = [0, 1, 2, 3, 4] \<and>
           nPrime st6 = [0, 1, 2, 3, 4] \<and>
           dnPrime st6 = [0, 1/4, 1/2, 3/4, 1])"
  using sixth_observation_initialises[of "[3, 1, 4, 1, 5]" "1/2" 9] by simp

subsection \<open>The ranks increase strictly\<close>

lemma ranks_increasingE:
  assumes "ranks_increasing st"
  obtains a b c d e where "n st = [a, b, c, d, e]" "a < b" "b < c" "c < d" "d < e"
proof -
  from assms have len: "length (n st) = 5" and s: "sorted_wrt (<) (n st)"
    by (simp_all add: ranks_increasing_def)
  from len obtain a b c d e where eq: "n st = [a, b, c, d, e]"
    by (auto simp: length_Suc_conv numeral_eq_Suc)
  with s that show thesis by auto
qed

lemma selectCell_ranks:
  "selectCell st v = (st', k) \<Longrightarrow> n st' = n st \<and> k \<in> {0, 1, 2, 3}"
  by (auto simp: selectCell_def split: if_splits)

lemma bumpRanks_ranks:
  assumes "ranks_increasing st" "k \<in> {0, 1, 2, 3}"
  shows "ranks_increasing (bumpRanks st k)"
proof -
  from assms(1) obtain a b c d e where eq: "n st = [a, b, c, d, e]"
    and lt: "a < b" "b < c" "c < d" "d < e" by (rule ranks_increasingE)
  have u: "[1..<5] = [1, 2, 3, 4::nat]" "[2..<5] = [2, 3, 4::nat]" "[3..<5] = [3, 4::nat]"
    "[4..<5] = [4::nat]" "[Suc 0..<5] = [1, 2, 3, 4::nat]" by code_simp+
  from assms(2) show ?thesis
    using eq lt by (auto simp: bumpRanks_def ranks_increasing_def u nat_add_distrib)
qed

lemma advanceDesired_ranks: "n (advanceDesired st) = n st"
  by (simp add: advanceDesired_def)

lemma int_of_float64_sign: "int_of_float64 (sign d) = (if d < 0 then - 1 else 1)"
proof -
  have "\<lceil>- 1 :: real\<rceil> = - 1" by (simp add: ceiling_eq_iff)
  then show ?thesis by (simp add: int_of_float64_def sign_def)
qed

lemma adjustMarker_ranks:
  assumes "ranks_increasing st" "x \<in> {1, 2, 3}"
  shows "ranks_increasing (adjustMarker st x)"
proof -
  from assms(1) obtain a b c d e where eq: "n st = [a, b, c, d, e]"
    and lt: "a < b" "b < c" "c < d" "d < e" by (rule ranks_increasingE)
  have n': "n (adjustMarker st x) = n st \<or>
        (nPrime st ! x - real_of_int (n st ! x) \<ge> 1 \<and> n st ! (x + 1) - n st ! x > 1 \<and>
           n (adjustMarker st x) = (n st)[x := n st ! x + 1]) \<or>
        (nPrime st ! x - real_of_int (n st ! x) \<le> -1 \<and> n st ! (x - 1) - n st ! x < -1 \<and>
           n (adjustMarker st x) = (n st)[x := n st ! x - 1])"
    by (auto simp: adjustMarker_def Let_def int_of_float64_sign)
  from assms(2) consider "x = 1" | "x = 2" | "x = 3" by auto
  then show ?thesis
  proof cases
    case 1 with n' eq lt show ?thesis by (auto simp: ranks_increasing_def)
  next
    case 2 with n' eq lt show ?thesis by (auto simp: ranks_increasing_def)
  next
    case 3 with n' eq lt show ?thesis by (auto simp: ranks_increasing_def numeral_3_eq_3)
  qed
qed

lemma updateMarkers_ranks:
  assumes "ranks_increasing st"
  shows "ranks_increasing (updateMarkers st v)"
proof -
  obtain st' k where sc: "selectCell st v = (st', k)" by (cases "selectCell st v")
  from selectCell_ranks[OF sc] assms have r: "ranks_increasing st'" and k: "k \<in> {0, 1, 2, 3}"
    by (simp_all add: ranks_increasing_def)
  have "ranks_increasing (advanceDesired (bumpRanks st' k))"
    using bumpRanks_ranks[OF r k] by (simp add: ranks_increasing_def advanceDesired_ranks)
  moreover have "[1..<4] = [1, 2, 3::nat]" by code_simp
  ultimately show ?thesis
    by (simp add: updateMarkers_def sc adjustMarker_ranks)
qed

lemma initMarkers_ranks: "initMarkers p st = Some st' \<Longrightarrow> ranks_increasing st'"
  by (auto simp: initMarkers_def Let_def ranks_increasing_def split: if_splits)

lemma observe_ranks:
  assumes "observations st < 6 \<or> ranks_increasing st" "observe p st v = Some st'"
  shows "observations st' < 6 \<or> ranks_increasing st'"
proof (cases "observations st + 1 < 6")
  case True
  with assms(2) show ?thesis by (auto simp: observe_def Let_def)
next
  case False
  show ?thesis
  proof (cases "observations st + 1 = 6")
    case True
    with False assms(2) obtain st6 where
      "initMarkers p (st\<lparr>observations := observations st + 1\<rparr>) = Some st6"
      "st' = updateMarkers st6 v"
      by (auto simp: observe_def Let_def split: bind_splits)
    then show ?thesis using initMarkers_ranks updateMarkers_ranks by blast
  next
    case ne: False
    from False ne have "\<not> observations st < 6" by unat_arith
    with assms(1) have "ranks_increasing (st\<lparr>observations := observations st + 1\<rparr>)"
      by (simp add: ranks_increasing_def)
    moreover from False ne assms(2)
    have "st' = updateMarkers (st\<lparr>observations := observations st + 1\<rparr>) v"
      by (auto simp: observe_def Let_def)
    ultimately show ?thesis using updateMarkers_ranks by blast
  qed
qed

lemma iterate_ranks:
  "observations st < 6 \<or> ranks_increasing st \<Longrightarrow> iterate_with (observe p) it st = Some st' \<Longrightarrow>
   observations st' < 6 \<or> ranks_increasing st'"
proof (induction it arbitrary: st)
  case Nil
  then show ?case by simp
next
  case (Cons v it)
  from Cons.prems(2) obtain st1 where o: "observe p st v = Some st1"
    and r: "iterate_with (observe p) it st1 = Some st'"
    by (auto split: option.splits)
  from observe_ranks[OF Cons.prems(1) o] have "observations st1 < 6 \<or> ranks_increasing st1" .
  from Cons.IH[OF this r] show ?case .
qed

lemma ranks_increasing_run:
  "iterate_with (observe p) it psquare_init = Some st \<Longrightarrow>
   observations st < 6 \<or> ranks_increasing st"
  by (rule iterate_ranks[of psquare_init]) (simp_all add: psquare_init_def)

lemma adjustMarker_divisors:
  assumes "ranks_increasing st" "x \<in> {1, 2, 3}"
  shows "n st ! (x - 1) < n st ! x \<and> n st ! x < n st ! (x + 1)"
proof -
  from assms(1) obtain a b c d e where eq: "n st = [a, b, c, d, e]"
    and lt: "a < b" "b < c" "c < d" "d < e" by (rule ranks_increasingE)
  from assms(2) eq lt show ?thesis by (auto simp: numeral_3_eq_3)
qed

end
